theory Spec2Isabelle
  imports Main
begin

section \<open>The patrol-distance planner of the drone patrol service\<close>

text \<open>
  The development embeds \<^verbatim>\<open>CalculateDroneDistance\<close> of the handler package, with the
  repository types it consumes and produces, and settles what the specification says
  about it.

  Go's \<^verbatim>\<open>int\<close> is modelled by \<^typ>\<open>int\<close>. The API admits lengths and widths from 1 to
  50000 and tree heights from 1 to 30, which keeps every sum of the function inside the
  64-bit range, and every height difference inside the range where the detour of
  \<^verbatim>\<open>math.Abs\<close> through \<^verbatim>\<open>float64\<close> is exact (lemma \<open>sums_in_machine_range\<close>
  below); no wrap-around is written out. A runtime panic of the Go
  program (an index out of range, a negative length handed to \<^verbatim>\<open>make\<close>) is a value
  of the error type, as is the one error the function returns.
\<close>

subsection \<open>Repository types\<close>

record Tree =
  X :: int
  Y :: int
  Height :: int

record Estate =
  Length :: int
  Width :: int

record CalculateDroneDistanceInput =
  Trees :: "Tree list"
  Estate :: Estate

record CalculateDroneDistanceOutput =
  TotalDistance :: int
  TotalVerticalDistance :: int
  TotalHorizontalDistance :: int
  LastAchievableXCoordinate :: int
  LastAchievableYCoordinate :: int

datatype error =
  InvalidInputError
  | MakeSliceLenOutOfRange
  | IndexOutOfRange

subsection \<open>The plantation grid\<close>

type_synonym grid = "int list list"

type_synonym cell = "int \<times> int"

text \<open>
  \<^verbatim>\<open>plantationGridArray := make([][]int, Width)\<close>, each row
  \<^verbatim>\<open>make([]int, Length)\<close> filled with 1. \<^verbatim>\<open>make\<close> panics on a negative length; the rows
  are only made when there is at least one of them.
\<close>

definition make_grid :: "int \<Rightarrow> int \<Rightarrow> error + grid" where
  "make_grid w l =
     (if w < 0 then Inl MakeSliceLenOutOfRange
      else if 0 < w \<and> l < 0 then Inl MakeSliceLenOutOfRange
      else Inr (replicate (nat w) (replicate (nat l) 1)))"

text \<open>The bounds check Go performs on \<^verbatim>\<open>plantationGridArray[i][j]\<close>.\<close>

definition in_range :: "grid \<Rightarrow> int \<Rightarrow> int \<Rightarrow> bool" where
  "in_range g i j =
     (0 \<le> i \<and> i < int (length g) \<and> 0 \<le> j \<and> j < int (length (g ! nat i)))"

text \<open>A read of \<^verbatim>\<open>plantationGridArray[i][j]\<close>; \<open>None\<close> is the panic.\<close>

definition load :: "grid \<Rightarrow> int \<Rightarrow> int \<Rightarrow> int option" where
  "load g i j = (if in_range g i j then Some (g ! nat i ! nat j) else None)"

text \<open>A write \<^verbatim>\<open>plantationGridArray[i][j] = v\<close>; \<open>None\<close> is the panic.\<close>

definition store :: "grid \<Rightarrow> int \<Rightarrow> int \<Rightarrow> int \<Rightarrow> grid option" where
  "store g i j v =
     (if in_range g i j then Some (g[nat i := (g ! nat i)[nat j := v]]) else None)"

text \<open>
  \<^verbatim>\<open>for _, t := range input.Trees { plantationGridArray[t.Y-1][t.X-1] = t.Height + 1 }\<close>
\<close>

fun place_trees :: "Tree list \<Rightarrow> grid \<Rightarrow> error + grid" where
  "place_trees [] g = Inr g"
| "place_trees (t # ts) g =
     (case store g (Y t - 1) (X t - 1) (Height t + 1) of
        None \<Rightarrow> Inl IndexOutOfRange
      | Some g' \<Rightarrow> place_trees ts g')"

subsection \<open>The traversal state\<close>

text \<open>
  The local variables of the function that the two nested loops mutate, and the output
  struct they write the last achievable coordinates into. The field \<open>visited\<close> is a
  ghost: it records, for every cell whose body starts, the 0-based cell \<open>(i, j)\<close> read
  into \<^verbatim>\<open>currentHeight\<close> and the cell read into \<^verbatim>\<open>previousHeight\<close> (\<open>None\<close>
  where the body assigns no previous height). Nothing the function returns depends on it.
\<close>

record state =
  totalHorizontalDistance :: int
  totalVerticalDistance :: int
  currentHeight :: int
  previousHeight :: int
  calculateDroneDistanceOutput :: CalculateDroneDistanceOutput
  visited :: "(cell \<times> cell option) list"

text \<open>
  What a loop hands back: the state to go on with, the state at a
  \<^verbatim>\<open>return calculateDroneDistanceOutput, nil\<close> inside the loop, or a panic.
\<close>

datatype flow =
  Running state
  | Returned state
  | Panicked error

definition initial_output :: CalculateDroneDistanceOutput where
  "initial_output =
     \<lparr>TotalDistance = 0, TotalVerticalDistance = 0, TotalHorizontalDistance = 0,
      LastAchievableXCoordinate = 0, LastAchievableYCoordinate = 0\<rparr>"

definition initial_state :: state where
  "initial_state =
     \<lparr>totalHorizontalDistance = 0, totalVerticalDistance = 0, currentHeight = 0,
      previousHeight = 0, calculateDroneDistanceOutput = initial_output, visited = []\<rparr>"

subsection \<open>The body of the loops\<close>

text \<open>
  The assignments to \<^verbatim>\<open>currentHeight\<close> and \<^verbatim>\<open>previousHeight\<close> at the head of a body:
  the current cell \<open>c\<close> is read, and the previous cell \<open>p\<close> where the branch reads one.
\<close>

definition fetch :: "grid \<Rightarrow> cell \<Rightarrow> cell option \<Rightarrow> state \<Rightarrow> state option" where
  "fetch g c p s =
     (case load g (fst c) (snd c) of
        None \<Rightarrow> None
      | Some h \<Rightarrow>
          (case p of
             None \<Rightarrow> Some (s\<lparr>currentHeight := h, visited := visited s @ [(c, None)]\<rparr>)
           | Some q \<Rightarrow>
               (case load g (fst q) (snd q) of
                  None \<Rightarrow> None
                | Some ph \<Rightarrow>
                    Some (s\<lparr>currentHeight := h, previousHeight := ph,
                            visited := visited s @ [(c, Some q)]\<rparr>))))"

text \<open>\<^verbatim>\<open>maxDistance != nil && *maxDistance < x\<close>\<close>

definition budget_exceeded :: "int option \<Rightarrow> int \<Rightarrow> bool" where
  "budget_exceeded maxDistance x = (case maxDistance of None \<Rightarrow> False | Some m \<Rightarrow> m < x)"

text \<open>
  The rest of a body, the same text in both loops but for two conditions: whether the
  scale factor is added (\<open>charge\<close>: always in an odd row, everywhere but at the first cell
  in an even row) and whether the cell is the one to land on (\<open>landing\<close>).
  \<^verbatim>\<open>int(math.Abs(float64(currentHeight - previousHeight)))\<close> is the absolute value.
\<close>

definition settle ::
  "int \<Rightarrow> int option \<Rightarrow> grid \<Rightarrow> int \<Rightarrow> int \<Rightarrow> bool \<Rightarrow> bool \<Rightarrow> state \<Rightarrow> flow" where
  "settle ScaleFactor maxDistance g i j charge landing s =
     (let increment = \<bar>currentHeight s - previousHeight s\<bar>;
          s1 = s\<lparr>totalVerticalDistance := totalVerticalDistance s + increment\<rparr>;
          s2 = (if charge
                then s1\<lparr>totalHorizontalDistance := totalHorizontalDistance s1 + ScaleFactor\<rparr>
                else s1)
      in if budget_exceeded maxDistance
              (totalHorizontalDistance s2 + totalVerticalDistance s2 + currentHeight s2)
         then Returned s2
         else
           (let s3 = s2\<lparr>calculateDroneDistanceOutput :=
                          (calculateDroneDistanceOutput s2)
                            \<lparr>LastAchievableXCoordinate := j + 1,
                             LastAchievableYCoordinate := i + 1\<rparr>\<rparr>
            in if landing
               then (case load g i j of
                       None \<Rightarrow> Panicked IndexOutOfRange
                     | Some h \<Rightarrow>
                         Running (s3\<lparr>totalVerticalDistance := totalVerticalDistance s3 + h\<rparr>))
               else Running s3))"

text \<open>The body of the inner loop of an even row (\<^verbatim>\<open>i%2 == 0\<close>).\<close>

definition even_cell ::
  "int \<Rightarrow> int option \<Rightarrow> int \<Rightarrow> int \<Rightarrow> grid \<Rightarrow> int \<Rightarrow> int \<Rightarrow> state \<Rightarrow> flow" where
  "even_cell ScaleFactor maxDistance w l g i j s =
     (case fetch g (i, j)
             (if j = 0 then (if i = 0 then None else Some (i - 1, j)) else Some (i, j - 1)) s of
        None \<Rightarrow> Panicked IndexOutOfRange
      | Some s' \<Rightarrow>
          settle ScaleFactor maxDistance g i j (\<not> (i = 0 \<and> j = 0)) (i = w - 1 \<and> j = l - 1) s')"

text \<open>The body of the inner loop of an odd row.\<close>

definition odd_cell ::
  "int \<Rightarrow> int option \<Rightarrow> int \<Rightarrow> int \<Rightarrow> grid \<Rightarrow> int \<Rightarrow> int \<Rightarrow> state \<Rightarrow> flow" where
  "odd_cell ScaleFactor maxDistance w l g i j s =
     (case fetch g (i, j) (if j = l - 1 then Some (i - 1, j) else Some (i, j + 1)) s of
        None \<Rightarrow> Panicked IndexOutOfRange
      | Some s' \<Rightarrow> settle ScaleFactor maxDistance g i j True (i = w - 1 \<and> j = 0) s')"

subsection \<open>The loops\<close>

text \<open>\<^verbatim>\<open>for j = 0; j < input.Estate.Length; j++\<close>, entered with \<open>j = 0\<close>.\<close>

function even_loop ::
  "int \<Rightarrow> int option \<Rightarrow> int \<Rightarrow> int \<Rightarrow> grid \<Rightarrow> int \<Rightarrow> int \<Rightarrow> state \<Rightarrow> flow" where
  "even_loop ScaleFactor maxDistance w l g i j s =
     (if j < l
      then (case even_cell ScaleFactor maxDistance w l g i j s of
              Running s' \<Rightarrow> even_loop ScaleFactor maxDistance w l g i (j + 1) s'
            | Returned s' \<Rightarrow> Returned s'
            | Panicked e \<Rightarrow> Panicked e)
      else Running s)"
  by pat_completeness auto
termination
  by (relation "measure (\<lambda>(ScaleFactor, maxDistance, w, l, g, i, j, s). nat (l - j))") auto

text \<open>\<^verbatim>\<open>for j = input.Estate.Length - 1; j >= 0; j--\<close>, entered with \<open>j = Length - 1\<close>.\<close>

function odd_loop ::
  "int \<Rightarrow> int option \<Rightarrow> int \<Rightarrow> int \<Rightarrow> grid \<Rightarrow> int \<Rightarrow> int \<Rightarrow> state \<Rightarrow> flow" where
  "odd_loop ScaleFactor maxDistance w l g i j s =
     (if 0 \<le> j
      then (case odd_cell ScaleFactor maxDistance w l g i j s of
              Running s' \<Rightarrow> odd_loop ScaleFactor maxDistance w l g i (j - 1) s'
            | Returned s' \<Rightarrow> Returned s'
            | Panicked e \<Rightarrow> Panicked e)
      else Running s)"
  by pat_completeness auto
termination
  by (relation "measure (\<lambda>(ScaleFactor, maxDistance, w, l, g, i, j, s). nat (j + 1))") auto

text \<open>
  \<^verbatim>\<open>for i = 0; i < input.Estate.Width; i++\<close>. The row index never falls below 0, where
  Go's remainder and \<open>mod\<close> agree.
\<close>

function row_loop ::
  "int \<Rightarrow> int option \<Rightarrow> int \<Rightarrow> int \<Rightarrow> grid \<Rightarrow> int \<Rightarrow> state \<Rightarrow> flow" where
  "row_loop ScaleFactor maxDistance w l g i s =
     (if i < w
      then (case (if i mod 2 = 0
                  then even_loop ScaleFactor maxDistance w l g i 0 s
                  else odd_loop ScaleFactor maxDistance w l g i (l - 1) s) of
              Running s' \<Rightarrow> row_loop ScaleFactor maxDistance w l g (i + 1) s'
            | Returned s' \<Rightarrow> Returned s'
            | Panicked e \<Rightarrow> Panicked e)
      else Running s)"
  by pat_completeness auto
termination
  by (relation "measure (\<lambda>(ScaleFactor, maxDistance, w, l, g, i, s). nat (w - i))") auto

subsection \<open>CalculateDroneDistance\<close>

text \<open>The grid of an input: made, then planted.\<close>

definition build_grid :: "CalculateDroneDistanceInput \<Rightarrow> error + grid" where
  "build_grid input =
     (case make_grid (Width (Estate input)) (Length (Estate input)) of
        Inl e \<Rightarrow> Inl e
      | Inr g \<Rightarrow> place_trees (Trees input) g)"

text \<open>The two loops over the grid of an input, from the initial values of the locals.\<close>

definition traverse :: "int \<Rightarrow> int option \<Rightarrow> int \<Rightarrow> int \<Rightarrow> grid \<Rightarrow> flow" where
  "traverse ScaleFactor maxDistance w l g =
     row_loop ScaleFactor maxDistance w l g 0 initial_state"

text \<open>
  The function: a nil input is \<open>None\<close>, a nil \<^verbatim>\<open>maxDistance\<close> is \<open>None\<close>, and
  \<^verbatim>\<open>s.Config.ScaleFactor\<close> is the first argument. A return inside the loops hands back
  the output struct as it is then; the totals are written into it after the loops only.
\<close>

definition CalculateDroneDistance ::
  "int \<Rightarrow> CalculateDroneDistanceInput option \<Rightarrow> int option
     \<Rightarrow> error + CalculateDroneDistanceOutput" where
  "CalculateDroneDistance ScaleFactor input maxDistance =
     (case input of
        None \<Rightarrow> Inl InvalidInputError
      | Some inp \<Rightarrow>
          (case build_grid inp of
             Inl e \<Rightarrow> Inl e
           | Inr g \<Rightarrow>
               (case traverse ScaleFactor maxDistance
                       (Width (Estate inp)) (Length (Estate inp)) g of
                  Panicked e \<Rightarrow> Inl e
                | Returned s \<Rightarrow> Inr (calculateDroneDistanceOutput s)
                | Running s \<Rightarrow>
                    Inr ((calculateDroneDistanceOutput s)
                          \<lparr>TotalDistance := totalVerticalDistance s + totalHorizontalDistance s,
                           TotalHorizontalDistance := totalHorizontalDistance s,
                           TotalVerticalDistance := totalVerticalDistance s\<rparr>))))"


section \<open>Notions the properties are stated with\<close>

subsection \<open>Preconditions\<close>

text \<open>A tree stands inside the estate: \<open>1 \<le> X \<le> Length\<close> and \<open>1 \<le> Y \<le> Width\<close>.\<close>

definition tree_in_bounds :: "Estate \<Rightarrow> Tree \<Rightarrow> bool" where
  "tree_in_bounds e t = (1 \<le> X t \<and> X t \<le> Length e \<and> 1 \<le> Y t \<and> Y t \<le> Width e)"

text \<open>
  What the validation in front of the planner guarantees: a width and a length of at
  least 1 and every tree inside the estate. Heights are left free.
\<close>

definition valid_input :: "CalculateDroneDistanceInput \<Rightarrow> bool" where
  "valid_input inp =
     (1 \<le> Width (Estate inp) \<and> 1 \<le> Length (Estate inp) \<and>
      list_all (tree_in_bounds (Estate inp)) (Trees inp))"

text \<open>The heights the API admits for a tree.\<close>

definition height_in_api :: "Tree \<Rightarrow> bool" where
  "height_in_api t = (1 \<le> Height t \<and> Height t \<le> 30)"

text \<open>
  An input as the API lets it through (lengths and widths up to 50000, heights from 1 to
  30), with a scale factor between 0 and \<open>10\<^sup>9\<close>.
\<close>

definition within_api :: "int \<Rightarrow> CalculateDroneDistanceInput \<Rightarrow> bool" where
  "within_api ScaleFactor inp =
     (valid_input inp \<and> Width (Estate inp) \<le> 50000 \<and> Length (Estate inp) \<le> 50000 \<and>
      list_all height_in_api (Trees inp) \<and> 0 \<le> ScaleFactor \<and> ScaleFactor \<le> 1000000000)"

subsection \<open>The serpentine order\<close>

text \<open>
  The cells \<open>(i, j)\<close> of row \<open>i\<close> (0-based row first, column second): columns ascending
  \<open>0 .. l - 1\<close> in an even row, descending \<open>l - 1 .. 0\<close> in an odd row.
\<close>

definition row_cells :: "int \<Rightarrow> int \<Rightarrow> cell list" where
  "row_cells l i = map (Pair i) (if i mod 2 = 0 then [0..l - 1] else rev [0..l - 1])"

text \<open>The serpentine order of an estate of width \<open>w\<close> and length \<open>l\<close>: rows \<open>0 .. w - 1\<close>.\<close>

definition serpentine :: "int \<Rightarrow> int \<Rightarrow> cell list" where
  "serpentine w l = concat (map (row_cells l) [0..w - 1])"

text \<open>The first \<open>n\<close> rows, for inductions over the number of rows.\<close>

definition rows :: "int \<Rightarrow> nat \<Rightarrow> cell list" where
  "rows l n = concat (map (row_cells l) [0..int n - 1])"

text \<open>The 1-based coordinates \<open>(x, y)\<close> of a cell, as the output reports them.\<close>

definition coordinates :: "cell \<Rightarrow> int \<times> int" where
  "coordinates c = (snd c + 1, fst c + 1)"



text \<open>Every cell of a list with the one before it; the first has none.\<close>

definition paired :: "cell list \<Rightarrow> (cell \<times> cell option) list" where
  "paired cs = zip cs (None # map Some cs)"

text \<open>The position of the first occurrence of an element in a list.\<close>

fun index_of :: "'a \<Rightarrow> 'a list \<Rightarrow> nat" where
  "index_of x [] = 0"
| "index_of x (y # ys) = (if x = y then 0 else Suc (index_of x ys))"

text \<open>
  How far an output reaches into the serpentine order: the number of cells up to and
  including the one it reports, 0 when it reports \<open>(0, 0)\<close>, which is no cell.
\<close>

definition reached :: "int \<Rightarrow> int \<Rightarrow> CalculateDroneDistanceOutput \<Rightarrow> nat" where
  "reached w l out =
     (if LastAchievableXCoordinate out = 0 \<and> LastAchievableYCoordinate out = 0 then 0
      else Suc (index_of (LastAchievableYCoordinate out - 1, LastAchievableXCoordinate out - 1)
                  (serpentine w l)))"

subsection \<open>The loops as a walk along a list of cells\<close>

text \<open>The body the loops run at a cell: the one of its row's parity.\<close>

definition visit ::
  "int \<Rightarrow> int option \<Rightarrow> int \<Rightarrow> int \<Rightarrow> grid \<Rightarrow> cell \<Rightarrow> state \<Rightarrow> flow" where
  "visit ScaleFactor maxDistance w l g c s =
     (if fst c mod 2 = 0
      then even_cell ScaleFactor maxDistance w l g (fst c) (snd c) s
      else odd_cell ScaleFactor maxDistance w l g (fst c) (snd c) s)"

text \<open>The bodies run along a list of cells, up to the first return or panic.\<close>

fun walk ::
  "int \<Rightarrow> int option \<Rightarrow> int \<Rightarrow> int \<Rightarrow> grid \<Rightarrow> cell list \<Rightarrow> state \<Rightarrow> flow" where
  "walk ScaleFactor maxDistance w l g [] s = Running s"
| "walk ScaleFactor maxDistance w l g (c # cs) s =
     (case visit ScaleFactor maxDistance w l g c s of
        Running s' \<Rightarrow> walk ScaleFactor maxDistance w l g cs s'
      | Returned s' \<Rightarrow> Returned s'
      | Panicked e \<Rightarrow> Panicked e)"

text \<open>The grid the function builds for an input; the empty one where building it panics.\<close>

definition height_map :: "CalculateDroneDistanceInput \<Rightarrow> grid" where
  "height_map inp = (case build_grid inp of Inl e \<Rightarrow> [] | Inr g \<Rightarrow> g)"


subsection \<open>Grids and heights\<close>

text \<open>A grid of \<open>w\<close> rows of \<open>l\<close> columns each.\<close>

definition rect :: "int \<Rightarrow> int \<Rightarrow> grid \<Rightarrow> bool" where
  "rect w l g = (length g = nat w \<and> list_all (\<lambda>r. length r = nat l) g)"

text \<open>A cell of such a grid.\<close>

definition inside :: "int \<Rightarrow> int \<Rightarrow> cell \<Rightarrow> bool" where
  "inside w l c = (0 \<le> fst c \<and> fst c < w \<and> 0 \<le> snd c \<and> snd c < l)"


text \<open>The value of a grid at a cell inside it.\<close>

definition hgt :: "grid \<Rightarrow> cell \<Rightarrow> int" where
  "hgt g c = g ! nat (fst c) ! nat (snd c)"

text \<open>
  The value the planting loop leaves at cell \<open>c\<close> of a grid that held \<open>v\<close> there: the
  height plus 1 of the last tree of the list that stands at \<open>c\<close>, and \<open>v\<close> if none does.
  With \<open>v = 1\<close> this is the hover height of the cell: 1 if bare, the tree's height plus 1
  otherwise.
\<close>

fun planted :: "Tree list \<Rightarrow> cell \<Rightarrow> int \<Rightarrow> int" where
  "planted [] c v = v"
| "planted (t # ts) c v = planted ts c (if (Y t - 1, X t - 1) = c then Height t + 1 else v)"

subsection \<open>The value the budget is compared with\<close>

text \<open>
  The sum of the height differences along a list of heights, the first one taken from
  the height \<open>p\<close>.
\<close>

fun climb :: "int \<Rightarrow> int list \<Rightarrow> int" where
  "climb p [] = 0"
| "climb p (h # hs) = \<bar>h - p\<bar> + climb h hs"

text \<open>
  For a non-empty prefix \<open>cs\<close> of the traversal, the value of
  \<^verbatim>\<open>totalHorizontalDistance + totalVerticalDistance + currentHeight\<close> at the check in
  the body of its last cell: the scale factor for every cell but the first, the height
  differences from 0 on, and the height of the last cell.
\<close>

definition cost :: "int \<Rightarrow> grid \<Rightarrow> cell list \<Rightarrow> int" where
  "cost ScaleFactor g cs =
     ScaleFactor * int (length cs - 1) + climb 0 (map (hgt g) cs) + hgt g (last cs)"

text \<open>
  The index, in the list of cells \<open>cs\<close>, of the first cell at whose check the budget is
  exceeded; \<open>None\<close> if there is no such cell, or no budget.
\<close>

definition first_exceeding :: "int \<Rightarrow> int option \<Rightarrow> grid \<Rightarrow> cell list \<Rightarrow> nat option" where
  "first_exceeding ScaleFactor maxDistance g cs =
     find (\<lambda>k. budget_exceeded maxDistance (cost ScaleFactor g (take (Suc k) cs))) [0..<length cs]"

text \<open>The number of cells passed before the budget is exceeded: all of them if it never is.\<close>

definition affordable :: "int \<Rightarrow> int option \<Rightarrow> grid \<Rightarrow> cell list \<Rightarrow> nat" where
  "affordable ScaleFactor maxDistance g cs =
     (case first_exceeding ScaleFactor maxDistance g cs of None \<Rightarrow> length cs | Some k \<Rightarrow> k)"


subsection \<open>The state along the walk\<close>

text \<open>
  The cell a body reads the previous height from, by the position of its cell: the
  conditions of \<open>even_cell\<close> and \<open>odd_cell\<close> in one function.
\<close>

definition code_prev :: "int \<Rightarrow> cell \<Rightarrow> cell option" where
  "code_prev l c =
     (if fst c mod 2 = 0
      then (if snd c = 0 then (if fst c = 0 then None else Some (fst c - 1, snd c))
            else Some (fst c, snd c - 1))
      else (if snd c = l - 1 then Some (fst c - 1, snd c) else Some (fst c, snd c + 1)))"

text \<open>The cell at which a body adds the landing: the conditions of both bodies in one.\<close>

definition is_final :: "int \<Rightarrow> int \<Rightarrow> cell \<Rightarrow> bool" where
  "is_final w l c = (fst c = w - 1 \<and> snd c = (if fst c mod 2 = 0 then l - 1 else 0))"

text \<open>
  Every cell of the list reads its previous height from the cell before it in the list,
  the first one from \<open>p\<close>.
\<close>

fun linked :: "int \<Rightarrow> cell option \<Rightarrow> cell list \<Rightarrow> bool" where
  "linked l p [] = True"
| "linked l p (c # cs) = (code_prev l c = p \<and> linked l (Some c) cs)"

definition end_of :: "cell list \<Rightarrow> cell option" where
  "end_of cs = (if cs = [] then None else Some (last cs))"

text \<open>The output struct once the cells \<open>pre\<close> are done: only the coordinates are written.\<close>

definition out_after :: "cell list \<Rightarrow> CalculateDroneDistanceOutput" where
  "out_after pre =
     \<lparr>TotalDistance = 0, TotalVerticalDistance = 0, TotalHorizontalDistance = 0,
      LastAchievableXCoordinate = (if pre = [] then 0 else snd (last pre) + 1),
      LastAchievableYCoordinate = (if pre = [] then 0 else fst (last pre) + 1)\<rparr>"

text \<open>The locals once the sums of the cells \<open>pre\<close> are taken, beside a given output.\<close>

definition moved :: "int \<Rightarrow> grid \<Rightarrow> cell list \<Rightarrow> CalculateDroneDistanceOutput \<Rightarrow> state" where
  "moved ScaleFactor g pre out =
     \<lparr>totalHorizontalDistance = ScaleFactor * int (length pre - 1),
      totalVerticalDistance = climb 0 (map (hgt g) pre),
      currentHeight = last (0 # map (hgt g) pre),
      previousHeight = last (0 # map (hgt g) (butlast pre)),
      calculateDroneDistanceOutput = out,
      visited = paired pre\<rparr>"

text \<open>The state once the bodies of the cells \<open>pre\<close> are done, the landing included.\<close>

definition st_after :: "int \<Rightarrow> int \<Rightarrow> int \<Rightarrow> grid \<Rightarrow> cell list \<Rightarrow> state" where
  "st_after ScaleFactor w l g pre =
     (let s = moved ScaleFactor g pre (out_after pre)
      in if pre \<noteq> [] \<and> is_final w l (last pre)
         then s\<lparr>totalVerticalDistance := totalVerticalDistance s + hgt g (last pre)\<rparr>
         else s)"

text \<open>The state at the return in the body of \<open>c\<close>, the cells \<open>pre\<close> being done.\<close>

definition halted :: "int \<Rightarrow> grid \<Rightarrow> cell list \<Rightarrow> cell \<Rightarrow> state" where
  "halted ScaleFactor g pre c = moved ScaleFactor g (pre @ [c]) (out_after pre)"

text \<open>
  What the walk along \<open>cs\<close> after \<open>pre\<close> needs: cells of the grid, each reading its
  previous height from the cell before it, and no landing before the last cell.
\<close>

definition path_ok :: "int \<Rightarrow> int \<Rightarrow> cell list \<Rightarrow> cell list \<Rightarrow> bool" where
  "path_ok w l pre cs =
     ((\<forall>c \<in> set (pre @ cs). inside w l c) \<and> linked l (end_of pre) cs \<and>
      (\<forall>c \<in> set (butlast (pre @ cs)). \<not> is_final w l c))"

subsection \<open>Inputs of the handler's tests\<close>

text \<open>Length 5, width 5, one tree of height 5 at (3, 3).\<close>

definition scenario_a :: CalculateDroneDistanceInput where
  "scenario_a =
     \<lparr>Trees = [\<lparr>X = 3, Y = 3, Height = 5\<rparr>], Estate = \<lparr>Length = 5, Width = 5\<rparr>\<rparr>"

text \<open>A single cell with a tree of height 5.\<close>

definition scenario_b :: CalculateDroneDistanceInput where
  "scenario_b =
     \<lparr>Trees = [\<lparr>X = 1, Y = 1, Height = 5\<rparr>], Estate = \<lparr>Length = 1, Width = 1\<rparr>\<rparr>"

text \<open>One row of 5 cells, a tree of height 5 at its end.\<close>

definition scenario_c :: CalculateDroneDistanceInput where
  "scenario_c =
     \<lparr>Trees = [\<lparr>X = 5, Y = 1, Height = 5\<rparr>], Estate = \<lparr>Length = 5, Width = 1\<rparr>\<rparr>"

text \<open>Two rows of 5 cells, trees of height 5 and 10 at the ends of the rows.\<close>

definition scenario_d :: CalculateDroneDistanceInput where
  "scenario_d =
     \<lparr>Trees = [\<lparr>X = 5, Y = 1, Height = 5\<rparr>, \<lparr>X = 5, Y = 2, Height = 10\<rparr>],
      Estate = \<lparr>Length = 5, Width = 2\<rparr>\<rparr>"

text \<open>An estate without trees.\<close>

definition bare_estate :: "int \<Rightarrow> int \<Rightarrow> CalculateDroneDistanceInput" where
  "bare_estate l w = \<lparr>Trees = [], Estate = \<lparr>Length = l, Width = w\<rparr>\<rparr>"

section \<open>Properties of the embedding\<close>

subsection \<open>The loops walk the serpentine order\<close>

text \<open>
  Each inner loop runs its body along the cells of its row, in the row's direction, and
  the outer loop puts the rows one after the other: the three loops together are the
  walk along the serpentine order.
\<close>

lemma walk_append:
  "walk sf m w l g (xs @ ys) s =
     (case walk sf m w l g xs s of
        Running s' \<Rightarrow> walk sf m w l g ys s'
      | Returned s' \<Rightarrow> Returned s'
      | Panicked e \<Rightarrow> Panicked e)"
  by (induction xs arbitrary: s) (auto split: flow.splits)

declare even_loop.simps [simp del] odd_loop.simps [simp del] row_loop.simps [simp del]

lemma even_loop_walk:
  "i mod 2 = 0 \<Longrightarrow>
   even_loop sf m w l g i j s = walk sf m w l g (map (Pair i) [j..l - 1]) s"
proof (induction sf m w l g i j s rule: even_loop.induct)
  case (1 sf m w l g i j s)
  show ?case
  proof (cases "j < l")
    case True
    then have u: "[j..l - 1] = j # [j + 1..l - 1]"
      by (simp add: upto_rec1)
    show ?thesis
      using True "1.IH" "1.prems"
      by (subst even_loop.simps) (simp add: u visit_def split: flow.splits)
  next
    case False
    then show ?thesis
      by (subst even_loop.simps) simp
  qed
qed

lemma rev_upto_step: "0 \<le> j \<Longrightarrow> rev [0..j] = j # rev [0..j - 1]"
  by (simp add: upto_rec2)

lemma odd_loop_walk:
  "i mod 2 \<noteq> 0 \<Longrightarrow>
   odd_loop sf m w l g i j s = walk sf m w l g (map (Pair i) (rev [0..j])) s"
proof (induction sf m w l g i j s rule: odd_loop.induct)
  case (1 sf m w l g i j s)
  show ?case
  proof (cases "0 \<le> j")
    case True
    show ?thesis
      using True "1.IH" "1.prems"
      by (subst odd_loop.simps) (simp add: rev_upto_step visit_def split: flow.splits)
  next
    case False
    then show ?thesis
      by (subst odd_loop.simps) simp
  qed
qed

lemma row_walk:
  "(if i mod 2 = 0 then even_loop sf m w l g i 0 s else odd_loop sf m w l g i (l - 1) s)
     = walk sf m w l g (row_cells l i) s"
  by (simp add: row_cells_def even_loop_walk odd_loop_walk)

lemma row_loop_walk:
  "row_loop sf m w l g i s = walk sf m w l g (concat (map (row_cells l) [i..w - 1])) s"
proof (induction sf m w l g i s rule: row_loop.induct)
  case (1 sf m w l g i s)
  show ?case
  proof (cases "i < w")
    case True
    then have u: "[i..w - 1] = i # [i + 1..w - 1]"
      by (simp add: upto_rec1)
    have "row_loop sf m w l g i s =
          (case walk sf m w l g (row_cells l i) s of
             Running s' \<Rightarrow> row_loop sf m w l g (i + 1) s'
           | Returned s' \<Rightarrow> Returned s'
           | Panicked e \<Rightarrow> Panicked e)"
      using True by (subst row_loop.simps) (simp only: row_walk if_True)
    also have "\<dots> = walk sf m w l g (row_cells l i @ concat (map (row_cells l) [i + 1..w - 1])) s"
      using True "1.IH" by (simp add: walk_append row_walk split: flow.splits)
    finally show ?thesis by (simp add: u)
  next
    case False
    then show ?thesis
      by (subst row_loop.simps) simp
  qed
qed

lemma traverse_walk:
  "traverse sf m w l g = walk sf m w l g (serpentine w l) initial_state"
  by (simp add: traverse_def serpentine_def row_loop_walk)

subsection \<open>One body\<close>

text \<open>
  The body of a cell \<open>c\<close>, run in the state the cells \<open>pre\<close> before it leave, when \<open>c\<close>
  reads its previous height from the last of them: either the budget is exceeded by
  \<open>cost\<close> of the prefix up to \<open>c\<close> and the body returns, or it leaves the state of that
  prefix.
\<close>

lemma load_inside:
  assumes "rect w l g" "inside w l c"
  shows "load g (fst c) (snd c) = Some (hgt g c)"
proof -
  from assms have i: "nat (fst c) < length g"
    by (simp add: rect_def inside_def)
  with assms have "length (g ! nat (fst c)) = nat l"
    by (simp add: rect_def list_all_length)
  with assms i show ?thesis
    by (simp add: load_def in_range_def hgt_def inside_def rect_def)
qed

lemma climb_snoc: "climb p (hs @ [h]) = climb p hs + \<bar>h - last (p # hs)\<bar>"
  by (induction hs arbitrary: p) auto

lemma paired_snoc: "paired (pre @ [c]) = paired pre @ [(c, end_of pre)]"
proof (cases pre rule: rev_cases)
  case Nil
  then show ?thesis by (simp add: paired_def end_of_def)
next
  case (snoc ys y)
  have a: "zip ((ys @ [y]) @ [c]) ((None # map Some ys) @ [Some y, Some c])
           = zip (ys @ [y]) (None # map Some ys) @ zip [c] [Some y, Some c]"
    by (rule zip_append) simp
  have b: "zip ((ys @ [y]) @ []) ((None # map Some ys) @ [Some y])
           = zip (ys @ [y]) (None # map Some ys) @ zip [] [Some y]"
    by (rule zip_append) simp
  from a b snoc show ?thesis by (simp add: paired_def end_of_def)
qed

lemma code_prev_None: "code_prev l c = None \<longleftrightarrow> c = (0, 0)"
  by (cases c) (auto simp: code_prev_def)

lemma visit_code_prev:
  "visit sf m w l g c s =
     (case fetch g c (code_prev l c) s of
        None \<Rightarrow> Panicked IndexOutOfRange
      | Some s' \<Rightarrow> settle sf m g (fst c) (snd c) (c \<noteq> (0, 0)) (is_final w l c) s')"
proof (cases c)
  case (Pair i j)
  show ?thesis
  proof (cases "i mod 2 = 0")
    case True
    with Pair show ?thesis
      by (auto simp: visit_def even_cell_def code_prev_def is_final_def split: option.splits)
  next
    case False
    then have "i \<noteq> 0" by auto
    with False Pair show ?thesis
      by (auto simp: visit_def odd_cell_def code_prev_def is_final_def split: option.splits)
  qed
qed

lemma fetch_moved:
  assumes "rect w l g" "inside w l c" "code_prev l c = end_of pre"
    and "pre \<noteq> [] \<Longrightarrow> inside w l (last pre)"
  shows "fetch g c (code_prev l c) (moved sf g pre out) =
           Some ((moved sf g pre out)
                   \<lparr>currentHeight := hgt g c,
                    previousHeight := last (0 # map (hgt g) pre),
                    visited := paired (pre @ [c])\<rparr>)"
proof (cases "pre = []")
  case True
  with assms show ?thesis
    by (simp add: fetch_def load_inside end_of_def moved_def paired_def)
next
  case False
  then have e: "code_prev l c = Some (last pre)"
    using assms(3) by (simp add: end_of_def)
  from False assms(4) have "load g (fst (last pre)) (snd (last pre)) = Some (hgt g (last pre))"
    using load_inside [OF assms(1)] by simp
  with False assms(1,2) e show ?thesis
    by (simp add: fetch_def load_inside moved_def paired_snoc end_of_def last_map)
qed

lemma visit_step:
  assumes "rect w l g" "inside w l c" "code_prev l c = end_of pre"
    and "pre \<noteq> [] \<Longrightarrow> inside w l (last pre) \<and> \<not> is_final w l (last pre)"
  shows "visit sf m w l g c (st_after sf w l g pre) =
           (if budget_exceeded m (cost sf g (pre @ [c]))
            then Returned (halted sf g pre c)
            else Running (st_after sf w l g (pre @ [c])))"
proof -
  have s: "st_after sf w l g pre = moved sf g pre (out_after pre)"
    using assms(4) by (auto simp: st_after_def Let_def)
  have f: "fetch g c (code_prev l c) (moved sf g pre (out_after pre)) =
           Some ((moved sf g pre (out_after pre))
                   \<lparr>currentHeight := hgt g c,
                    previousHeight := last (0 # map (hgt g) pre),
                    visited := paired (pre @ [c])\<rparr>)"
    using assms by (intro fetch_moved) auto
  have z: "c \<noteq> (0, 0) \<longleftrightarrow> pre \<noteq> []"
    using assms(3) code_prev_None [of l c] by (auto simp: end_of_def split: if_splits)
  have n: "int (length pre) = (if pre = [] then 0 else int (length pre - 1) + 1)"
    by (cases pre) simp_all
  have h: "sf * int (length pre) = (if pre = [] then 0 else sf * int (length pre - 1) + sf)"
    by (subst n) (simp add: algebra_simps)
  show ?thesis
    unfolding visit_code_prev s f option.case
    using load_inside [OF assms(1,2)] z h
    by (simp add: settle_def Let_def st_after_def halted_def moved_def cost_def climb_snoc
        out_after_def butlast_append)
qed

subsection \<open>The walk along a linked path\<close>

lemma path_ok_step:
  assumes "path_ok w l pre (c # cs)"
  shows "path_ok w l (pre @ [c]) cs" and "inside w l c" and "code_prev l c = end_of pre"
    and "pre \<noteq> [] \<Longrightarrow> inside w l (last pre) \<and> \<not> is_final w l (last pre)"
proof -
  from assms show "path_ok w l (pre @ [c]) cs"
    by (simp add: path_ok_def end_of_def)
  from assms show "inside w l c" and "code_prev l c = end_of pre"
    by (simp_all add: path_ok_def)
  assume "pre \<noteq> []"
  then have "last pre \<in> set pre" by simp
  with assms show "inside w l (last pre) \<and> \<not> is_final w l (last pre)"
    by (simp add: path_ok_def butlast_append)
qed

lemma walk_affordable:
  assumes "rect w l g"
  shows "path_ok w l pre cs \<Longrightarrow>
         (\<And>k. k < length cs \<Longrightarrow> \<not> budget_exceeded m (cost sf g (pre @ take (Suc k) cs))) \<Longrightarrow>
         walk sf m w l g cs (st_after sf w l g pre) = Running (st_after sf w l g (pre @ cs))"
proof (induction cs arbitrary: pre)
  case Nil
  then show ?case by simp
next
  case (Cons c cs)
  note p = path_ok_step [OF Cons.prems(1)]
  from Cons.prems(2) [of 0] have n: "\<not> budget_exceeded m (cost sf g (pre @ [c]))"
    by simp
  have "walk sf m w l g cs (st_after sf w l g (pre @ [c]))
          = Running (st_after sf w l g ((pre @ [c]) @ cs))"
  proof (rule Cons.IH [OF p(1)])
    fix k assume "k < length cs"
    with Cons.prems(2) [of "Suc k"]
    show "\<not> budget_exceeded m (cost sf g ((pre @ [c]) @ take (Suc k) cs))"
      by simp
  qed
  with n show ?case
    by (simp add: visit_step [OF assms p(2) p(3) p(4)])
qed

lemma walk_stops:
  assumes "rect w l g"
  shows "path_ok w l pre cs \<Longrightarrow> k < length cs \<Longrightarrow>
         budget_exceeded m (cost sf g (pre @ take (Suc k) cs)) \<Longrightarrow>
         (\<And>k'. k' < k \<Longrightarrow> \<not> budget_exceeded m (cost sf g (pre @ take (Suc k') cs))) \<Longrightarrow>
         walk sf m w l g cs (st_after sf w l g pre) = Returned (halted sf g (pre @ take k cs) (cs ! k))"
proof (induction cs arbitrary: pre k)
  case Nil
  then show ?case by simp
next
  case (Cons c cs)
  note p = path_ok_step [OF Cons.prems(1)]
  show ?case
  proof (cases k)
    case 0
    with Cons.prems(3) show ?thesis
      by (simp add: visit_step [OF assms p(2) p(3) p(4)])
  next
    case (Suc j)
    from Cons.prems(4) [of 0] Suc have n: "\<not> budget_exceeded m (cost sf g (pre @ [c]))"
      by simp
    have "walk sf m w l g cs (st_after sf w l g (pre @ [c]))
            = Returned (halted sf g ((pre @ [c]) @ take j cs) (cs ! j))"
    proof (rule Cons.IH [OF p(1)])
      from Cons.prems(2) Suc show "j < length cs" by simp
      from Cons.prems(3) Suc
      show "budget_exceeded m (cost sf g ((pre @ [c]) @ take (Suc j) cs))" by simp
      fix k' assume "k' < j"
      with Cons.prems(4) [of "Suc k'"] Suc
      show "\<not> budget_exceeded m (cost sf g ((pre @ [c]) @ take (Suc k') cs))" by simp
    qed
    with n Suc show ?thesis
      by (simp add: visit_step [OF assms p(2) p(3) p(4)])
  qed
qed

subsection \<open>The serpentine order is a linked path\<close>

lemma rows_0: "rows l 0 = []"
  by (simp add: rows_def)

lemma rows_Suc: "rows l (Suc n) = rows l n @ row_cells l (int n)"
proof -
  have "[0..int (Suc n) - 1] = [0..int n - 1] @ [int n]"
    using upto_rec2 [of 0 "int n"] by simp
  then show ?thesis by (simp add: rows_def)
qed

lemma serpentine_rows: "serpentine w l = rows l (nat w)"
proof (cases "0 \<le> w")
  case True
  then show ?thesis by (simp add: serpentine_def rows_def)
next
  case False
  then show ?thesis by (simp add: serpentine_def rows_def)
qed

lemma set_row_cells: "set (row_cells l i) = {i} \<times> {0..l - 1}"
  by (auto simp: row_cells_def)

lemma length_row_cells: "length (row_cells l i) = nat l"
  by (simp add: row_cells_def)

lemma row_cells_ends:
  assumes "1 \<le> l"
  shows "row_cells l i \<noteq> []"
    and "hd (row_cells l i) = (i, if i mod 2 = 0 then 0 else l - 1)"
    and "last (row_cells l i) = (i, if i mod 2 = 0 then l - 1 else 0)"
proof -
  from assms have a: "[0..l - 1] = 0 # [1..l - 1]"
    using upto_rec1 [of 0 "l - 1"] by simp
  from assms have b: "[0..l - 1] = [0..l - 2] @ [l - 1]"
    using upto_rec2 [of 0 "l - 1"] by simp
  have n: "[0..l - 1] \<noteq> []" and h: "hd [0..l - 1] = 0"
    by (simp_all add: a)
  have t: "last [0..l - 1] = l - 1"
    by (simp add: b)
  from n show "row_cells l i \<noteq> []"
    by (simp add: row_cells_def)
  from n h t show "hd (row_cells l i) = (i, if i mod 2 = 0 then 0 else l - 1)"
    by (simp add: row_cells_def hd_map hd_rev)
  from n h t show "last (row_cells l i) = (i, if i mod 2 = 0 then l - 1 else 0)"
    by (simp add: row_cells_def last_map last_rev)
qed

lemma butlast_row_not_final:
  assumes "c \<in> set (butlast (row_cells l i))"
  shows "\<not> is_final w l c"
proof (cases "1 \<le> l")
  case False
  then have "row_cells l i = []" by (simp add: row_cells_def)
  with assms show ?thesis by simp
next
  case True
  then have a: "[0..l - 1] = 0 # [1..l - 1]"
    using upto_rec1 [of 0 "l - 1"] by simp
  from True have b: "[0..l - 1] = [0..l - 2] @ [l - 1]"
    using upto_rec2 [of 0 "l - 1"] by simp
  show ?thesis
  proof (cases "i mod 2 = 0")
    case True
    then have "butlast (row_cells l i) = map (Pair i) [0..l - 2]"
      by (simp add: row_cells_def map_butlast [symmetric] b)
    with assms True show ?thesis by (auto simp: is_final_def)
  next
    case False
    then have "butlast (row_cells l i) = map (Pair i) (rev [1..l - 1])"
      by (simp add: row_cells_def map_butlast [symmetric] butlast_rev a)
    with assms False show ?thesis by (auto simp: is_final_def)
  qed
qed

lemma linked_append:
  "linked l p (xs @ ys) \<longleftrightarrow> linked l p xs \<and> linked l (if xs = [] then p else Some (last xs)) ys"
  by (induction xs arbitrary: p) auto

lemma linked_even_row:
  "i mod 2 = 0 \<Longrightarrow> 0 \<le> j \<Longrightarrow> code_prev l (i, j) = p \<Longrightarrow>
   linked l p (map (Pair i) [j..l - 1])"
proof (induction "nat (l - j)" arbitrary: j p)
  case 0
  then show ?case by simp
next
  case (Suc n)
  then have u: "[j..l - 1] = j # [j + 1..l - 1]"
    by (simp add: upto_rec1)
  have "linked l (Some (i, j)) (map (Pair i) [j + 1..l - 1])"
    using Suc.prems Suc.hyps(2) by (intro Suc.hyps(1)) (auto simp: code_prev_def)
  with Suc.prems show ?case by (simp add: u)
qed

lemma linked_odd_row:
  "i mod 2 \<noteq> 0 \<Longrightarrow> j \<le> l - 1 \<Longrightarrow> code_prev l (i, j) = p \<Longrightarrow>
   linked l p (map (Pair i) (rev [0..j]))"
proof (induction "nat (j + 1)" arbitrary: j p)
  case 0
  then show ?case by simp
next
  case (Suc n)
  then have u: "rev [0..j] = j # rev [0..j - 1]"
    by (simp add: upto_rec2)
  have "linked l (Some (i, j)) (map (Pair i) (rev [0..j - 1]))"
    using Suc.prems Suc.hyps(2) by (intro Suc.hyps(1)) (auto simp: code_prev_def)
  with Suc.prems show ?case by (simp add: u)
qed

lemma linked_row:
  "linked l (code_prev l (i, if i mod 2 = 0 then 0 else l - 1)) (row_cells l i)"
  by (simp add: row_cells_def linked_even_row linked_odd_row)

lemma rows_fst: "c \<in> set (rows l n) \<Longrightarrow> 0 \<le> fst c \<and> fst c < int n \<and> 0 \<le> snd c \<and> snd c < l"
  by (auto simp: rows_def set_row_cells)

lemma rows_end:
  assumes "1 \<le> l"
  shows "end_of (rows l n) =
           (if n = 0 then None
            else Some (int n - 1, if (int n - 1) mod 2 = 0 then l - 1 else 0))"
proof (cases n)
  case 0
  then show ?thesis by (simp add: rows_0 end_of_def)
next
  case (Suc k)
  with row_cells_ends [OF assms, of "int k"] show ?thesis
    by (simp add: rows_Suc end_of_def)
qed

lemma linked_rows:
  assumes "1 \<le> l"
  shows "linked l None (rows l n)"
proof (induction n)
  case 0
  then show ?case by (simp add: rows_0)
next
  case (Suc n)
  have "code_prev l (int n, if int n mod 2 = 0 then 0 else l - 1) = end_of (rows l n)"
  proof (cases "int n mod 2 = 0")
    case True
    then have "n \<noteq> 0 \<Longrightarrow> (int n - 1) mod 2 \<noteq> 0" by presburger
    with True show ?thesis
      unfolding rows_end [OF assms] by (auto simp: code_prev_def)
  next
    case False
    then have "(int n - 1) mod 2 = 0" and "n \<noteq> 0" by presburger+
    with False show ?thesis
      unfolding rows_end [OF assms] by (auto simp: code_prev_def)
  qed
  then have "linked l (end_of (rows l n)) (row_cells l (int n))"
    using linked_row [of l "int n"] by simp
  with Suc show ?case
    by (simp add: rows_Suc linked_append end_of_def)
qed

lemma butlast_rows_not_final:
  assumes "c \<in> set (butlast (rows l n))" "int n \<le> w"
  shows "\<not> is_final w l c"
proof (cases n)
  case 0
  with assms show ?thesis by (simp add: rows_0)
next
  case (Suc k)
  show ?thesis
  proof (cases "1 \<le> l")
    case True
    then have "butlast (rows l n) = rows l k @ butlast (row_cells l (int k))"
      using row_cells_ends(1) [OF True, of "int k"] Suc by (simp add: rows_Suc butlast_append)
    with assms(1) have "c \<in> set (rows l k) \<or> c \<in> set (butlast (row_cells l (int k)))"
      by auto
    then show ?thesis
    proof
      assume "c \<in> set (rows l k)"
      from rows_fst [OF this] Suc assms(2) show ?thesis by (simp add: is_final_def)
    next
      assume "c \<in> set (butlast (row_cells l (int k)))"
      then show ?thesis by (rule butlast_row_not_final)
    qed
  next
    case False
    with assms(1) have "c \<in> set (rows l n)" by (auto dest: in_set_butlastD)
    from rows_fst [OF this] False show ?thesis by simp
  qed
qed

lemma length_rows: "length (rows l n) = n * nat l"
  by (induction n) (simp_all add: rows_0 rows_Suc length_row_cells)

lemma path_ok_serpentine:
  assumes "1 \<le> l"
  shows "path_ok w l [] (serpentine w l)"
proof -
  have "\<forall>c \<in> set (rows l (nat w)). inside w l c"
  proof
    fix c assume "c \<in> set (rows l (nat w))"
    from rows_fst [OF this] show "inside w l c"
      by (auto simp: inside_def split: if_splits)
  qed
  moreover have "\<forall>c \<in> set (butlast (rows l (nat w))). \<not> is_final w l c"
    using butlast_rows_not_final [of _ l "nat w" w] by (cases "0 \<le> w") (auto simp: rows_0)
  ultimately show ?thesis
    using linked_rows [OF assms, of "nat w"]
    by (simp add: path_ok_def serpentine_rows end_of_def)
qed

lemma length_serpentine: "length (serpentine w l) = nat w * nat l"
  by (simp add: serpentine_rows length_rows)

lemma last_serpentine:
  assumes "1 \<le> w" "1 \<le> l"
  shows "serpentine w l \<noteq> []"
    and "last (serpentine w l) = (w - 1, if (w - 1) mod 2 = 0 then l - 1 else 0)"
proof -
  from assms(1) have "nat w \<noteq> 0" by simp
  with rows_end [OF assms(2), of "nat w"] assms(1)
  have e: "end_of (serpentine w l) = Some (w - 1, if (w - 1) mod 2 = 0 then l - 1 else 0)"
    by (simp add: serpentine_rows)
  then show "serpentine w l \<noteq> []"
    by (auto simp: end_of_def)
  with e show "last (serpentine w l) = (w - 1, if (w - 1) mod 2 = 0 then l - 1 else 0)"
    by (simp add: end_of_def)
qed

subsection \<open>Building the grid\<close>

lemma make_grid_rect:
  assumes "0 \<le> w" "0 \<le> l"
  shows "make_grid w l = Inr (replicate (nat w) (replicate (nat l) 1))"
    and "rect w l (replicate (nat w) (replicate (nat l) 1))"
  using assms by (simp_all add: make_grid_def rect_def list_all_length)

lemma store_rect:
  assumes "rect w l g" "inside w l c"
  shows "\<exists>g'. store g (fst c) (snd c) v = Some g' \<and> rect w l g' \<and>
              (\<forall>d. inside w l d \<longrightarrow> hgt g' d = (if d = c then v else hgt g d))"
proof -
  from assms have i: "nat (fst c) < length g"
    by (simp add: rect_def inside_def)
  with assms have r: "length (g ! nat (fst c)) = nat l"
    by (simp add: rect_def list_all_length)
  let ?g = "g[nat (fst c) := (g ! nat (fst c))[nat (snd c) := v]]"
  from assms i r have "store g (fst c) (snd c) v = Some ?g"
    by (simp add: store_def in_range_def inside_def rect_def)
  moreover from assms i r have "rect w l ?g"
    by (auto simp: rect_def list_all_length nth_list_update)
  moreover have "hgt ?g d = (if d = c then v else hgt g d)" if "inside w l d" for d
  proof -
    from that assms(2) have "nat (fst d) = nat (fst c) \<longleftrightarrow> fst d = fst c"
      and "nat (snd d) = nat (snd c) \<longleftrightarrow> snd d = snd c"
      by (auto simp: inside_def)
    moreover from that assms(1) have "nat (fst d) < length g"
      by (simp add: rect_def inside_def)
    moreover from that r have "nat (snd d) < length (g ! nat (fst c))"
      by (simp add: inside_def)
    ultimately show ?thesis
      by (cases c; cases d) (auto simp: hgt_def nth_list_update)
  qed
  ultimately show ?thesis by blast
qed

lemma place_trees_rect:
  assumes "list_all (tree_in_bounds \<lparr>Length = l, Width = w\<rparr>) ts"
  shows "rect w l g \<Longrightarrow>
         \<exists>g'. place_trees ts g = Inr g' \<and> rect w l g' \<and>
              (\<forall>d. inside w l d \<longrightarrow> hgt g' d = planted ts d (hgt g d))"
  using assms
proof (induction ts arbitrary: g)
  case Nil
  then show ?case by simp
next
  case (Cons t ts)
  from Cons.prems(2) have "inside w l (Y t - 1, X t - 1)"
    by (simp add: tree_in_bounds_def inside_def)
  from store_rect [OF Cons.prems(1) this, of "Height t + 1"]
  obtain g1 where g1: "store g (Y t - 1) (X t - 1) (Height t + 1) = Some g1" "rect w l g1"
    "\<And>d. inside w l d \<Longrightarrow>
          hgt g1 d = (if d = (Y t - 1, X t - 1) then Height t + 1 else hgt g d)"
    by auto
  from Cons.prems(2) have "list_all (tree_in_bounds \<lparr>Length = l, Width = w\<rparr>) ts"
    by simp
  from Cons.IH [OF g1(2) this]
  obtain g' where g': "place_trees ts g1 = Inr g'" "rect w l g'"
    "\<And>d. inside w l d \<Longrightarrow> hgt g' d = planted ts d (hgt g1 d)"
    by auto
  from g1(1) g'(1) have "place_trees (t # ts) g = Inr g'"
    by simp
  moreover have "hgt g' d = planted (t # ts) d (hgt g d)" if "inside w l d" for d
    using g'(3) [OF that] g1(3) [OF that]
    by (cases "d = (Y t - 1, X t - 1)") auto
  ultimately show ?case
    using g'(2) by blast
qed

lemma build_grid_valid:
  assumes "valid_input inp"
  shows "build_grid inp = Inr (height_map inp)"
    and "rect (Width (Estate inp)) (Length (Estate inp)) (height_map inp)"
    and "inside (Width (Estate inp)) (Length (Estate inp)) d \<Longrightarrow>
         hgt (height_map inp) d = planted (Trees inp) d 1"
proof -
  let ?w = "Width (Estate inp)" and ?l = "Length (Estate inp)"
  let ?g0 = "replicate (nat ?w) (replicate (nat ?l) (1::int))"
  from assms have b: "0 \<le> ?w" "0 \<le> ?l"
    by (simp_all add: valid_input_def)
  have e: "\<lparr>Length = ?l, Width = ?w\<rparr> = Estate inp" by simp
  from assms have "list_all (tree_in_bounds \<lparr>Length = ?l, Width = ?w\<rparr>) (Trees inp)"
    unfolding e by (simp add: valid_input_def)
  from place_trees_rect [OF this make_grid_rect(2) [OF b]]
  obtain g' where g': "place_trees (Trees inp) ?g0 = Inr g'" "rect ?w ?l g'"
    "\<And>d. inside ?w ?l d \<Longrightarrow> hgt g' d = planted (Trees inp) d (hgt ?g0 d)"
    by auto
  then have h: "build_grid inp = Inr g'"
    by (simp add: build_grid_def make_grid_rect(1) [OF b])
  then have m: "height_map inp = g'"
    by (simp add: height_map_def)
  from h m show "build_grid inp = Inr (height_map inp)" by simp
  from g'(2) m show "rect ?w ?l (height_map inp)" by simp
  assume d: "inside ?w ?l d"
  then have "hgt ?g0 d = 1"
    by (simp add: hgt_def inside_def)
  with g'(3) [OF d] m show "hgt (height_map inp) d = planted (Trees inp) d 1"
    by simp
qed

subsection \<open>The function in closed form\<close>

lemma st_after_Nil: "st_after sf w l g [] = initial_state"
  by (simp add: st_after_def moved_def out_after_def initial_state_def initial_output_def
      paired_def)

lemma traverse_char:
  assumes "rect w l g" "1 \<le> l"
  shows "traverse sf m w l g =
           (case first_exceeding sf m g (serpentine w l) of
              None \<Rightarrow> Running (st_after sf w l g (serpentine w l))
            | Some k \<Rightarrow>
                Returned (halted sf g (take k (serpentine w l)) (serpentine w l ! k)))"
proof (cases "first_exceeding sf m g (serpentine w l)")
  case None
  then have "\<And>k. k < length (serpentine w l) \<Longrightarrow>
       \<not> budget_exceeded m (cost sf g ([] @ take (Suc k) (serpentine w l)))"
    by (auto simp: first_exceeding_def find_None_iff)
  from walk_affordable [OF assms(1) path_ok_serpentine [OF assms(2)] this] None
  show ?thesis
    by (simp add: traverse_walk st_after_Nil)
next
  case (Some k)
  then have k: "k < length (serpentine w l)"
    "budget_exceeded m (cost sf g ([] @ take (Suc k) (serpentine w l)))"
    "\<And>k'. k' < k \<Longrightarrow> \<not> budget_exceeded m (cost sf g ([] @ take (Suc k') (serpentine w l)))"
    by (auto simp: first_exceeding_def find_Some_iff)
  from walk_stops [OF assms(1) path_ok_serpentine [OF assms(2)] k] Some
  show ?thesis
    by (simp add: traverse_walk st_after_Nil)
qed


lemma planner_completes:
  assumes "valid_input inp"
    and "first_exceeding sf m (height_map inp)
           (serpentine (Width (Estate inp)) (Length (Estate inp))) = None"
  shows "CalculateDroneDistance sf (Some inp) m =
           Inr \<lparr>TotalDistance =
                  climb 0 (map (hgt (height_map inp))
                             (serpentine (Width (Estate inp)) (Length (Estate inp))))
                  + hgt (height_map inp)
                      (last (serpentine (Width (Estate inp)) (Length (Estate inp))))
                  + sf * int (length (serpentine (Width (Estate inp)) (Length (Estate inp))) - 1),
                TotalVerticalDistance =
                  climb 0 (map (hgt (height_map inp))
                             (serpentine (Width (Estate inp)) (Length (Estate inp))))
                  + hgt (height_map inp)
                      (last (serpentine (Width (Estate inp)) (Length (Estate inp)))),
                TotalHorizontalDistance =
                  sf * int (length (serpentine (Width (Estate inp)) (Length (Estate inp))) - 1),
                LastAchievableXCoordinate =
                  snd (last (serpentine (Width (Estate inp)) (Length (Estate inp)))) + 1,
                LastAchievableYCoordinate =
                  fst (last (serpentine (Width (Estate inp)) (Length (Estate inp)))) + 1\<rparr>"
proof -
  let ?w = "Width (Estate inp)" and ?l = "Length (Estate inp)"
  from assms(1) have b: "1 \<le> ?w" "1 \<le> ?l"
    by (simp_all add: valid_input_def)
  note ls = last_serpentine [OF b]
  have f: "is_final ?w ?l (last (serpentine ?w ?l))"
    by (simp add: ls(2) is_final_def)
  have "traverse sf m ?w ?l (height_map inp)
          = Running (st_after sf ?w ?l (height_map inp) (serpentine ?w ?l))"
    using assms(2) by (simp add: traverse_char [OF build_grid_valid(2) [OF assms(1)] b(2)])
  with ls(1) f show ?thesis
    by (simp add: CalculateDroneDistance_def build_grid_valid(1) [OF assms(1)]
        st_after_def moved_def out_after_def Let_def)
qed

lemma planner_stops:
  assumes "valid_input inp"
    and "first_exceeding sf m (height_map inp)
           (serpentine (Width (Estate inp)) (Length (Estate inp))) = Some k"
  shows "CalculateDroneDistance sf (Some inp) m =
           Inr (out_after (take k (serpentine (Width (Estate inp)) (Length (Estate inp)))))"
proof -
  let ?w = "Width (Estate inp)" and ?l = "Length (Estate inp)"
  from assms(1) have b: "1 \<le> ?l"
    by (simp add: valid_input_def)
  have "traverse sf m ?w ?l (height_map inp)
          = Returned (halted sf (height_map inp) (take k (serpentine ?w ?l))
                        (serpentine ?w ?l ! k))"
    using assms(2) by (simp add: traverse_char [OF build_grid_valid(2) [OF assms(1)] b])
  then show ?thesis
    by (simp add: CalculateDroneDistance_def build_grid_valid(1) [OF assms(1)]
        halted_def moved_def)
qed

subsection \<open>Positions in the serpentine order\<close>

lemma index_of_nth: "distinct xs \<Longrightarrow> k < length xs \<Longrightarrow> index_of (xs ! k) xs = k"
proof (induction xs arbitrary: k)
  case Nil
  then show ?case by simp
next
  case (Cons x xs)
  then show ?case by (cases k) auto
qed

lemma distinct_row_cells: "distinct (row_cells l i)"
  by (simp add: row_cells_def distinct_map inj_on_def)

lemma distinct_rows: "distinct (rows l n)"
proof (induction n)
  case 0
  then show ?case by (simp add: rows_0)
next
  case (Suc n)
  have "set (rows l n) \<inter> set (row_cells l (int n)) = {}"
    by (auto simp: set_row_cells dest: rows_fst)
  with Suc show ?case
    by (simp add: rows_Suc distinct_row_cells)
qed

lemma distinct_serpentine: "distinct (serpentine w l)"
  by (simp add: serpentine_rows distinct_rows)

lemma inside_serpentine: "c \<in> set (serpentine w l) \<Longrightarrow> inside w l c"
  using rows_fst [of c l "nat w"]
  by (auto simp: serpentine_rows inside_def split: if_splits)

lemma reached_nth:
  assumes "k < length (serpentine w l)"
    and "(LastAchievableXCoordinate out, LastAchievableYCoordinate out)
           = coordinates (serpentine w l ! k)"
  shows "reached w l out = Suc k"
proof -
  from assms(1) have "inside w l (serpentine w l ! k)"
    by (intro inside_serpentine) simp
  with assms(2) have "LastAchievableXCoordinate out \<noteq> 0"
    and c: "(LastAchievableYCoordinate out - 1, LastAchievableXCoordinate out - 1)
              = serpentine w l ! k"
    by (auto simp: coordinates_def inside_def prod_eq_iff)
  then show ?thesis
    by (simp add: reached_def c index_of_nth [OF distinct_serpentine assms(1)])
qed

lemma first_exceeding_bound:
  "first_exceeding sf m g cs = Some k \<Longrightarrow> k < length cs"
  by (auto simp: first_exceeding_def find_Some_iff)

lemma planner_last:
  assumes "valid_input inp"
  shows "\<exists>out. CalculateDroneDistance sf (Some inp) m = Inr out \<and>
           (LastAchievableXCoordinate out, LastAchievableYCoordinate out) =
             (case first_exceeding sf m (height_map inp)
                     (serpentine (Width (Estate inp)) (Length (Estate inp))) of
                None \<Rightarrow> coordinates (last (serpentine (Width (Estate inp)) (Length (Estate inp))))
              | Some k \<Rightarrow>
                  (if k = 0 then (0, 0)
                   else coordinates (serpentine (Width (Estate inp)) (Length (Estate inp)) ! (k - 1))))"
proof (cases "first_exceeding sf m (height_map inp)
                (serpentine (Width (Estate inp)) (Length (Estate inp)))")
  case None
  with planner_completes [OF assms None] show ?thesis
    by (simp add: coordinates_def)
next
  case (Some k)
  note b = first_exceeding_bound [OF Some]
  show ?thesis
  proof (cases k)
    case 0
    with planner_stops [OF assms Some] Some show ?thesis
      by (simp add: out_after_def)
  next
    case (Suc j)
    with b have "take k (serpentine (Width (Estate inp)) (Length (Estate inp))) \<noteq> []"
      and "last (take k (serpentine (Width (Estate inp)) (Length (Estate inp))))
             = serpentine (Width (Estate inp)) (Length (Estate inp)) ! j"
      by (auto simp: take_Suc_conv_app_nth)
    with planner_stops [OF assms Some] Some Suc show ?thesis
      by (simp add: out_after_def coordinates_def)
  qed
qed

lemma planner_reached:
  assumes "valid_input inp"
  shows "\<exists>out. CalculateDroneDistance sf (Some inp) m = Inr out \<and>
           reached (Width (Estate inp)) (Length (Estate inp)) out =
             affordable sf m (height_map inp)
               (serpentine (Width (Estate inp)) (Length (Estate inp)))"
proof -
  let ?cs = "serpentine (Width (Estate inp)) (Length (Estate inp))"
  from assms have b: "1 \<le> Width (Estate inp)" "1 \<le> Length (Estate inp)"
    by (simp_all add: valid_input_def)
  from planner_last [OF assms, of sf m] obtain out where
    o: "CalculateDroneDistance sf (Some inp) m = Inr out"
    and c: "(LastAchievableXCoordinate out, LastAchievableYCoordinate out) =
             (case first_exceeding sf m (height_map inp) ?cs of
                None \<Rightarrow> coordinates (last ?cs)
              | Some k \<Rightarrow> (if k = 0 then (0, 0) else coordinates (?cs ! (k - 1))))"
    by blast
  have "reached (Width (Estate inp)) (Length (Estate inp)) out
          = affordable sf m (height_map inp) ?cs"
  proof (cases "first_exceeding sf m (height_map inp) ?cs")
    case None
    from last_serpentine(1) [OF b] have n: "length ?cs - 1 < length ?cs" "?cs \<noteq> []"
      by simp_all
    from c None have "(LastAchievableXCoordinate out, LastAchievableYCoordinate out)
        = coordinates (?cs ! (length ?cs - 1))"
      by (simp add: last_conv_nth [OF n(2)])
    from reached_nth [OF n(1) this] n None show ?thesis
      by (simp add: affordable_def)
  next
    case (Some k)
    note kb = first_exceeding_bound [OF Some]
    show ?thesis
    proof (cases k)
      case 0
      with c Some show ?thesis by (simp add: reached_def affordable_def)
    next
      case (Suc j)
      with kb have j: "j < length ?cs" by simp
      from c Some Suc have "(LastAchievableXCoordinate out, LastAchievableYCoordinate out)
          = coordinates (?cs ! j)"
        by simp
      from reached_nth [OF j this] Some Suc show ?thesis
        by (simp add: affordable_def)
    qed
  qed
  with o show ?thesis by blast
qed

lemma affordable_mono:
  assumes "m1 \<le> m2"
  shows "affordable sf (Some m1) g cs \<le> affordable sf (Some m2) g cs"
proof (cases "first_exceeding sf (Some m2) g cs")
  case None
  then show ?thesis
    by (auto simp: affordable_def dest: first_exceeding_bound split: option.splits)
next
  case (Some k2)
  then have k2: "k2 < length cs" "m2 < cost sf g (take (Suc k2) cs)"
    by (auto simp: first_exceeding_def find_Some_iff budget_exceeded_def)
  with assms have e: "m1 < cost sf g (take (Suc k2) cs)" by simp
  show ?thesis
  proof (cases "first_exceeding sf (Some m1) g cs")
    case None
    with k2(1) e show ?thesis
      by (auto simp: first_exceeding_def find_None_iff budget_exceeded_def)
  next
    case (Some k1)
    then have "\<And>k'. k' < k1 \<Longrightarrow> \<not> m1 < cost sf g (take (Suc k') cs)"
      and "k1 < length cs"
      by (auto simp: first_exceeding_def find_Some_iff budget_exceeded_def)
    with e have "k1 \<le> k2" by (meson not_le_imp_less)
    with Some \<open>first_exceeding sf (Some m2) g cs = Some k2\<close> show ?thesis
      by (simp add: affordable_def)
  qed
qed

subsection \<open>The inputs of the tests\<close>

lemma valid_scenarios:
  "valid_input scenario_a" "valid_input scenario_b" "valid_input scenario_c"
  "valid_input scenario_d" "valid_input (bare_estate 5 5)" "valid_input (bare_estate 1 1)"
  by (simp_all add: valid_input_def tree_in_bounds_def scenario_a_def scenario_b_def
      scenario_c_def scenario_d_def bare_estate_def)

lemma dims_scenarios:
  "Width (Estate scenario_a) = 5" "Length (Estate scenario_a) = 5"
  "Width (Estate scenario_b) = 1" "Length (Estate scenario_b) = 1"
  "Width (Estate scenario_c) = 1" "Length (Estate scenario_c) = 5"
  "Width (Estate scenario_d) = 2" "Length (Estate scenario_d) = 5"
  "Width (Estate (bare_estate l w)) = w" "Length (Estate (bare_estate l w)) = l"
  "Trees (bare_estate l w) = []"
  by (simp_all add: scenario_a_def scenario_b_def scenario_c_def scenario_d_def bare_estate_def)

subsection \<open>The first cell, flat ground, the trace, the panics\<close>













subsection \<open>The sums stay in the range of the machine integers\<close>

text \<open>
  For an input within the bounds of the API, in the state any number of cells of the
  traversal leaves: the totals are not negative, the two heights lie between 0 and 31,
  and the totals with twice the largest height added stay below \<open>2\<^sup>6\<^sup>3\<close>. So no sum the
  function takes leaves the range of Go's \<^verbatim>\<open>int\<close>, and the height differences are
  integers that \<^verbatim>\<open>float64\<close> holds exactly: there the unbounded integers of the
  embedding compute what the program computes.
\<close>

lemma planted_range:
  "list_all height_in_api ts \<Longrightarrow> 1 \<le> v \<Longrightarrow> v \<le> 31 \<Longrightarrow>
   1 \<le> planted ts c v \<and> planted ts c v \<le> 31"
  by (induction ts arbitrary: v) (auto simp: height_in_api_def)

lemma climb_range:
  "(\<And>h. h \<in> set hs \<Longrightarrow> 0 \<le> h \<and> h \<le> b) \<Longrightarrow> 0 \<le> p \<Longrightarrow> p \<le> b \<Longrightarrow>
   0 \<le> climb p hs \<and> climb p hs \<le> b * int (length hs)"
proof (induction hs arbitrary: p)
  case Nil
  then show ?case by simp
next
  case (Cons h hs)
  from Cons.prems(1) [of h] have h: "0 \<le> h" "h \<le> b" by simp_all
  from Cons.IH [OF _ h] Cons.prems(1)
  have "0 \<le> climb h hs \<and> climb h hs \<le> b * int (length hs)" by simp
  moreover from h Cons.prems(2,3) have "\<bar>h - p\<bar> \<le> b" by simp
  ultimately show ?case by (simp add: algebra_simps)
qed

lemma sums_in_machine_range:
  assumes "within_api ScaleFactor inp"
    and "pre = take n (serpentine (Width (Estate inp)) (Length (Estate inp)))"
    and "s = st_after ScaleFactor (Width (Estate inp)) (Length (Estate inp)) (height_map inp) pre"
  shows "0 \<le> totalHorizontalDistance s" and "0 \<le> totalVerticalDistance s"
    and "0 \<le> currentHeight s \<and> currentHeight s \<le> 31"
    and "0 \<le> previousHeight s \<and> previousHeight s \<le> 31"
    and "totalHorizontalDistance s + totalVerticalDistance s + 62 < 2 ^ 63"
proof -
  let ?w = "Width (Estate inp)" and ?l = "Length (Estate inp)"
  let ?g = "height_map inp"
  from assms(1) have v: "valid_input inp" and w: "1 \<le> ?w" "?w \<le> 50000"
    and l: "1 \<le> ?l" "?l \<le> 50000" and t: "list_all height_in_api (Trees inp)"
    and f: "0 \<le> ScaleFactor" "ScaleFactor \<le> 1000000000"
    by (simp_all add: within_api_def valid_input_def)
  have r: "1 \<le> hgt ?g c \<and> hgt ?g c \<le> 31" if "c \<in> set pre" for c
  proof -
    from that assms(2) have "inside ?w ?l c"
      by (auto dest: in_set_takeD inside_serpentine)
    from build_grid_valid(3) [OF v this] planted_range [OF t, of 1 c] show ?thesis
      by simp
  qed
  have r0: "0 \<le> h \<and> h \<le> 31" if "h \<in> set (map (hgt ?g) pre)" for h
  proof -
    from that obtain c where "c \<in> set pre" "h = hgt ?g c" by auto
    with r [of c] show ?thesis by simp
  qed
  from climb_range [where p = 0 and b = 31 and hs = "map (hgt ?g) pre", OF r0]
  have c: "0 \<le> climb 0 (map (hgt ?g) pre)" "climb 0 (map (hgt ?g) pre) \<le> 31 * int (length pre)"
    by simp_all
  have "length pre \<le> nat ?w * nat ?l"
    using assms(2) by (simp add: length_serpentine)
  also have "\<dots> \<le> 50000 * 50000"
    using w l by (intro mult_le_mono) simp_all
  finally have n: "int (length pre) \<le> 2500000000" by simp
  then have n1: "int (length pre - 1) \<le> 2500000000" by simp
  have h: "0 \<le> ScaleFactor * int (length pre - 1)"
    using f(1) by simp
  have "ScaleFactor * int (length pre - 1) \<le> 1000000000 * 2500000000"
    using f n1 by (intro mult_mono) simp_all
  then have h2: "ScaleFactor * int (length pre - 1) \<le> 2500000000000000000" by simp
  have cur: "0 \<le> last (0 # map (hgt ?g) pre) \<and> last (0 # map (hgt ?g) pre) \<le> 31"
    using r [of "last pre"] by (cases "pre = []") (simp_all add: last_map)
  have prv: "0 \<le> last (0 # map (hgt ?g) (butlast pre)) \<and>
             last (0 # map (hgt ?g) (butlast pre)) \<le> 31"
  proof (cases "butlast pre = []")
    case True
    then show ?thesis by simp
  next
    case False
    then have "last (butlast pre) \<in> set (butlast pre)"
      by simp
    then have "last (butlast pre) \<in> set pre"
      by (rule in_set_butlastD)
    from r [OF this] False show ?thesis
      by (simp add: last_map)
  qed
  have fin: "pre \<noteq> [] \<Longrightarrow> 0 \<le> hgt ?g (last pre) \<and> hgt ?g (last pre) \<le> 31"
    using r [of "last pre"] by simp
  have e: "totalHorizontalDistance s = ScaleFactor * int (length pre - 1)"
    "totalVerticalDistance s = climb 0 (map (hgt ?g) pre) +
       (if pre \<noteq> [] \<and> is_final ?w ?l (last pre) then hgt ?g (last pre) else 0)"
    "currentHeight s = last (0 # map (hgt ?g) pre)"
    "previousHeight s = last (0 # map (hgt ?g) (butlast pre))"
    by (simp_all add: assms(3) st_after_def moved_def Let_def)
  from h show "0 \<le> totalHorizontalDistance s"
    unfolding e .
  from c(1) fin show "0 \<le> totalVerticalDistance s"
    unfolding e by auto
  from cur show "0 \<le> currentHeight s \<and> currentHeight s \<le> 31"
    unfolding e .
  from prv show "0 \<le> previousHeight s \<and> previousHeight s \<le> 31"
    unfolding e .
  from h2 c(2) n fin show "totalHorizontalDistance s + totalVerticalDistance s + 62 < 2 ^ 63"
    unfolding e by auto
qed

section \<open>The claims\<close>

















text \<open>
  C7. For every input with Width and Length at least 1 and trees inside the estate, and
  every two budgets \<open>m1 \<le> m2\<close>, both calls return, and the cell reported with \<open>m1\<close>
  comes no later in the serpentine order than the cell reported with \<open>m2\<close>.
\<close>

theorem reach_monotone_in_budget:
  assumes "valid_input inp" "m1 \<le> m2"
  shows "\<exists>out1 out2.
           CalculateDroneDistance ScaleFactor (Some inp) (Some m1) = Inr out1 \<and>
           CalculateDroneDistance ScaleFactor (Some inp) (Some m2) = Inr out2 \<and>
           reached (Width (Estate inp)) (Length (Estate inp)) out1
             \<le> reached (Width (Estate inp)) (Length (Estate inp)) out2"
  using planner_reached [OF assms(1), of ScaleFactor "Some m1"]
    planner_reached [OF assms(1), of ScaleFactor "Some m2"]
    affordable_mono [OF assms(2), of ScaleFactor "height_map inp"
      "serpentine (Width (Estate inp)) (Length (Estate inp))"]
  by auto

text \<open>The two rows of 5 cells with the budgets 111 and 112.\<close>

theorem reach_monotone_in_budget_witness:
  "valid_input scenario_d \<and> (111::int) \<le> 112 \<and>
   (\<exists>out1 out2.
      CalculateDroneDistance 10 (Some scenario_d) (Some 111) = Inr out1 \<and>
      CalculateDroneDistance 10 (Some scenario_d) (Some 112) = Inr out2 \<and>
      reached 2 5 out1 \<le> reached 2 5 out2)"
  using reach_monotone_in_budget [OF valid_scenarios(4), of 111 112 10]
  by (simp add: valid_scenarios(4) dims_scenarios)







end
